theory Spec2Isabelle
  imports Complex_Main "HOL-Library.Sublist"
begin

section \<open>Weighted transducers as finitely branching functions\<close>

text \<open>
  The grammars of the repository are expressions over the combinators of the transducer
  library (pynini). A transducer is embedded as the function that gives, for a whole input
  string, the list of its accepting paths: the output string and the weight of each path.
  Strings are byte strings, as the library reads them (its default token type), so a
  character beyond ASCII is the sequence of the bytes of its UTF-8 encoding. Weights are
  the finite weights of the tropical semiring (added along a path), kept as rationals;
  no theorem below depends on their arithmetic.
\<close>

type_synonym weight = rat
type_synonym wfst = "string \<Rightarrow> (string \<times> weight) list"

definition outputs :: "wfst \<Rightarrow> string \<Rightarrow> string set" where
  "outputs f s = fst ` set (f s)"

definition accepts :: "wfst \<Rightarrow> string \<Rightarrow> bool" where
  "accepts f s = (f s \<noteq> [])"

subsection \<open>The combinators of the library\<close>

text \<open>\<open>pynini.accep\<close>: the acceptor of one string (a Python string used as a
  transducer is promoted to it).\<close>

definition accep :: "string \<Rightarrow> wfst" where
  "accep lit s = (if s = lit then [(lit, 0)] else [])"

text \<open>\<open>pynini.cross(f, b)\<close> with a string \<open>b\<close>: every input of \<open>f\<close> is mapped
  to \<open>b\<close>.\<close>

definition cross :: "wfst \<Rightarrow> string \<Rightarrow> wfst" where
  "cross f b s = map (\<lambda>(o1, w). (b, w)) (f s)"

text \<open>\<open>pynutil.insert(x)\<close> is \<open>cross("", x)\<close>, \<open>pynutil.delete(f)\<close> is
  \<open>cross(f, "")\<close>.\<close>

definition insert_fst :: "string \<Rightarrow> wfst" where
  "insert_fst x = cross (accep []) x"

definition delete_fst :: "wfst \<Rightarrow> wfst" where
  "delete_fst f = cross f []"

definition union_fst :: "wfst \<Rightarrow> wfst \<Rightarrow> wfst" where
  "union_fst f g s = f s @ g s"

definition unions :: "wfst list \<Rightarrow> wfst" where
  "unions fs s = concat (map (\<lambda>f. f s) fs)"

text \<open>Concatenation (\<open>+\<close>): the input is cut in two at any place.\<close>

definition concat_fst :: "wfst \<Rightarrow> wfst \<Rightarrow> wfst" where
  "concat_fst f g s =
     concat (map (\<lambda>k. concat (map (\<lambda>(o1, w1). map (\<lambda>(o2, w2). (o1 @ o2, w1 + w2))
                                                     (g (drop k s)))
                                   (f (take k s))))
                 [0..<Suc (length s)])"

text \<open>
  \<open>pynini.closure(f)\<close>: zero or more repetitions. Every repetition reads at least one
  symbol: this is so for every argument of a closure in the sources (a repetition that
  reads nothing and writes nothing adds no path to the relation).
\<close>

function closure :: "wfst \<Rightarrow> wfst" where
  "closure f s =
     (if s = [] then [([], 0)]
      else concat (map (\<lambda>k. concat (map (\<lambda>(o1, w1). map (\<lambda>(o2, w2). (o1 @ o2, w1 + w2))
                                                          (closure f (drop k s)))
                                        (f (take k s))))
                       [1..<Suc (length s)]))"
  by pat_completeness auto
termination
  by (relation "measure (\<lambda>(f, s). length s)") auto

declare closure.simps [simp del]

text \<open>\<open>pynini.closure(f, 1)\<close>: one or more repetitions.\<close>

definition closure1 :: "wfst \<Rightarrow> wfst" where
  "closure1 f = concat_fst f (closure f)"

text \<open>Composition (\<open>@\<close>): the output of the first is the input of the second.\<close>

definition compose :: "wfst \<Rightarrow> wfst \<Rightarrow> wfst" where
  "compose f g s =
     concat (map (\<lambda>(o1, w1). map (\<lambda>(o2, w2). (o2, w1 + w2)) (g o1)) (f s))"

text \<open>\<open>pynini.difference\<close> of two acceptors and \<open>pynini.project(f, "input")\<close>.\<close>

definition difference :: "wfst \<Rightarrow> wfst \<Rightarrow> wfst" where
  "difference a b s = (if b s = [] then a s else [])"

definition project_input :: "wfst \<Rightarrow> wfst" where
  "project_input f s = map (\<lambda>(o1, w). (s, w)) (f s)"

text \<open>\<open>pynini.invert\<close> exchanges input and output. The inverse of a transducer has
  in general infinitely many outputs for an input, so it is kept as a relation.\<close>

definition invert :: "wfst \<Rightarrow> string \<Rightarrow> string \<Rightarrow> bool" where
  "invert f p w = (p \<in> outputs f w)"


text \<open>\<open>optimize\<close> changes the automaton, not the weighted relation.\<close>

definition optimize :: "wfst \<Rightarrow> wfst" where
  "optimize f = f"

text \<open>\<open>pynini.string_file\<close>, \<open>pynini.string_map\<close>: the union of the crosses of the
  lines of a table.\<close>

definition string_map :: "(string \<times> string) list \<Rightarrow> wfst" where
  "string_map tbl s = map (\<lambda>(k, v). (v, 0)) (filter (\<lambda>(k, v). k = s) tbl)"

text \<open>
  \<open>pynini.cdrewrite(cross(a, b), "", "", sigma)\<close>: the obligatory rewrite of every
  occurrence of \<open>a\<close> by \<open>b\<close>, from left to right, on the strings of \<open>sigma\<close>.
\<close>

function rewrite_all :: "string \<Rightarrow> string \<Rightarrow> string \<Rightarrow> string" where
  "rewrite_all a b [] = []"
| "rewrite_all a b (c # cs) =
     (if a \<noteq> [] \<and> prefix a (c # cs) then b @ rewrite_all a b (drop (length a) (c # cs))
      else c # rewrite_all a b cs)"
  by pat_completeness auto
termination
  by (relation "measure (\<lambda>(a, b, s). length s)") auto

definition cdrewrite :: "string \<Rightarrow> string \<Rightarrow> wfst \<Rightarrow> wfst" where
  "cdrewrite a b sigma s = map (\<lambda>(o1, w). (rewrite_all a b s, w)) (sigma s)"

subsection \<open>The characters: \<open>utf8.VALID_UTF8_CHAR\<close>\<close>

text \<open>
  One character in UTF-8 is one byte from 1 to 127, or a leading byte from 192 to 223, from
  224 to 239 or from 240 to 247 followed by one, two or three continuation bytes, each from
  128 to 191 (the byte 0 is the empty label of the library, never a symbol).
  \<open>char_len s\<close> is the number of bytes of the character at the head of \<open>s\<close>, and 0 when
  there is none.
\<close>

definition ascii :: "char \<Rightarrow> bool" where
  "ascii c = (1 \<le> (of_char c :: nat) \<and> (of_char c :: nat) \<le> 127)"

definition cont_byte :: "char \<Rightarrow> bool" where
  "cont_byte c = (128 \<le> (of_char c :: nat) \<and> (of_char c :: nat) \<le> 191)"

fun char_len :: "string \<Rightarrow> nat" where
  "char_len [] = 0"
| "char_len (a # s) =
     (if ascii a then 1
      else if 192 \<le> (of_char a :: nat) \<and> (of_char a :: nat) \<le> 223 then
        (case s of b # _ \<Rightarrow> if cont_byte b then 2 else 0 | _ \<Rightarrow> 0)
      else if 224 \<le> (of_char a :: nat) \<and> (of_char a :: nat) \<le> 239 then
        (case s of b # c # _ \<Rightarrow> if cont_byte b \<and> cont_byte c then 3 else 0 | _ \<Rightarrow> 0)
      else if 240 \<le> (of_char a :: nat) \<and> (of_char a :: nat) \<le> 247 then
        (case s of b # c # d # _ \<Rightarrow>
           if cont_byte b \<and> cont_byte c \<and> cont_byte d then 4 else 0 | _ \<Rightarrow> 0)
      else 0)"

definition is_char :: "string \<Rightarrow> bool" where
  "is_char p = (p \<noteq> [] \<and> char_len p = length p)"

definition VALID_UTF8_CHAR :: wfst where
  "VALID_UTF8_CHAR s = (if is_char s then [(s, 0)] else [])"

text \<open>The strings of characters: what \<open>closure VALID_UTF8_CHAR\<close> accepts, read from
  the left one character at a time.\<close>

function utf8_text :: "string \<Rightarrow> bool" where
  "utf8_text s =
     (if s = [] then True
      else if char_len s = 0 then False
      else utf8_text (drop (char_len s) s))"
  by pat_completeness auto
termination
  by (relation "measure length") auto

declare utf8_text.simps [simp del]

section \<open>graph_utils.py\<close>

definition NEMO_CHAR :: wfst where
  "NEMO_CHAR = VALID_UTF8_CHAR"

definition ascii_lowercase :: string where
  "ascii_lowercase = ''abcdefghijklmnopqrstuvwxyz''"

definition ascii_uppercase :: string where
  "ascii_uppercase = ''ABCDEFGHIJKLMNOPQRSTUVWXYZ''"

definition NEMO_LOWER :: wfst where
  "NEMO_LOWER = optimize (unions (map (\<lambda>c. accep [c]) ascii_lowercase))"

definition NEMO_UPPER :: wfst where
  "NEMO_UPPER = optimize (unions (map (\<lambda>c. accep [c]) ascii_uppercase))"

definition NEMO_NON_BREAKING_SPACE :: string where
  "NEMO_NON_BREAKING_SPACE = [CHR 0xC2, CHR 0xA0]"

definition NEMO_SPACE :: string where
  "NEMO_SPACE = '' ''"

definition NEMO_WHITE_SPACE :: wfst where
  "NEMO_WHITE_SPACE = optimize (unions
     [accep '' '', accep [CHR 0x09], accep [CHR 0x0A], accep [CHR 0x0D],
      accep NEMO_NON_BREAKING_SPACE])"

definition NEMO_NOT_QUOTE :: wfst where
  "NEMO_NOT_QUOTE = optimize (difference NEMO_CHAR (accep [CHR 0x22]))"

definition NEMO_SIGMA :: wfst where
  "NEMO_SIGMA = closure NEMO_CHAR"

definition delete_space :: wfst where
  "delete_space = delete_fst (closure NEMO_WHITE_SPACE)"

definition insert_space :: wfst where
  "insert_space = insert_fst '' ''"

definition delete_extra_space :: wfst where
  "delete_extra_space = cross (closure1 NEMO_WHITE_SPACE) '' ''"

definition delete_preserve_order :: wfst where
  \<open>delete_preserve_order = closure (union_fst
     (delete_fst (accep '' preserve_order: true''))
     (concat_fst (concat_fst (delete_fst (accep '' field_order: "'')) NEMO_NOT_QUOTE)
        (delete_fst (accep ''"''))))\<close>

text \<open>
  \<open>plurals._priority_union(q, r, sigma)\<close> of the library's examples: \<open>q\<close>, and \<open>r\<close> on
  the strings of \<open>sigma\<close> outside the domain of \<open>q\<close>.
\<close>

definition priority_union :: "wfst \<Rightarrow> wfst \<Rightarrow> wfst \<Rightarrow> wfst" where
  "priority_union q r sigma =
     union_fst q (compose (difference sigma (project_input q)) r)"

text \<open>The table \<open>data/suppletive.tsv\<close> is a parameter of the plural grammar.\<close>

definition suppletive :: "(string \<times> string) list \<Rightarrow> wfst" where
  "suppletive tbl = string_map tbl"

definition plural_c :: wfst where
  "plural_c = unions (map (\<lambda>c. accep [c]) ''bcdfghjklmnpqrstvwxyz'')"

definition plural_ies :: wfst where
  "plural_ies = concat_fst (concat_fst NEMO_SIGMA plural_c) (cross (accep ''y'') ''ies'')"

definition plural_es :: wfst where
  "plural_es = concat_fst
     (concat_fst NEMO_SIGMA
        (unions [accep ''s'', accep ''sh'', accep ''ch'', accep ''x'', accep ''z'']))
     (insert_fst ''es'')"

definition plural_s :: wfst where
  "plural_s = concat_fst NEMO_SIGMA (insert_fst ''s'')"

definition graph_plural :: "(string \<times> string) list \<Rightarrow> wfst" where
  "graph_plural tbl = optimize
     (priority_union (suppletive tbl)
        (priority_union plural_ies (priority_union plural_es plural_s NEMO_SIGMA) NEMO_SIGMA)
        NEMO_SIGMA)"

definition SINGULAR_TO_PLURAL :: "(string \<times> string) list \<Rightarrow> wfst" where
  "SINGULAR_TO_PLURAL tbl = graph_plural tbl"

definition PLURAL_TO_SINGULAR :: "(string \<times> string) list \<Rightarrow> string \<Rightarrow> string \<Rightarrow> bool" where
  "PLURAL_TO_SINGULAR tbl = invert (graph_plural tbl)"



definition convert_space :: "wfst \<Rightarrow> wfst" where
  "convert_space f = compose f (cdrewrite NEMO_SPACE NEMO_NON_BREAKING_SPACE NEMO_SIGMA)"

text \<open>The two framing methods of \<open>GraphFst\<close>; \<open>name\<close> is the unit's \<open>self.name\<close>.\<close>

definition add_tokens :: "string \<Rightarrow> wfst \<Rightarrow> wfst" where
  "add_tokens name f =
     concat_fst (concat_fst (insert_fst (name @ '' { '')) f) (insert_fst '' }'')"

definition delete_tokens :: "string \<Rightarrow> wfst \<Rightarrow> wfst" where
  "delete_tokens name f =
     (let res = concat_fst (concat_fst (concat_fst (concat_fst (concat_fst (concat_fst
                  (delete_fst (accep name))
                  delete_space)
                  (delete_fst (accep ''{'')))
                  delete_space)
                  f)
                  delete_space)
                  (delete_fst (accep ''}''))
      in compose res (cdrewrite NEMO_NON_BREAKING_SPACE '' '' NEMO_SIGMA))"

section \<open>es/verbalizers/date.py\<close>

text \<open>
  The verbalizer of dates. The two tables \<open>data/dates/months.tsv\<close> and
  \<open>data/dates/months_cased.tsv\<close> are parameters; the shared grammars are those of
  \<open>graph_utils.py\<close> above. The definitions follow the local names of \<open>DateFst.__init__\<close>;
  Python's \<open>+\<close> associates to the left, and \<open>final_graph += a + b\<close> appends \<open>a + b\<close>.
\<close>

definition graph_month :: "(string \<times> string) list \<Rightarrow> (string \<times> string) list \<Rightarrow> wfst" where
  "graph_month months months_cased = union_fst (string_map months) (string_map months_cased)"

definition year :: wfst where
  \<open>year = concat_fst (concat_fst (concat_fst (concat_fst
       (delete_fst (accep ''year:''))
       delete_space)
       (delete_fst (accep ''"'')))
       (closure1 NEMO_NOT_QUOTE))
       (delete_fst (accep ''"''))\<close>

definition month :: "wfst \<Rightarrow> wfst" where
  \<open>month gm = concat_fst (concat_fst (concat_fst (concat_fst
       (delete_fst (accep ''month:''))
       delete_space)
       (delete_fst (accep ''"'')))
       gm)
       (delete_fst (accep ''"''))\<close>

definition day :: wfst where
  \<open>day = concat_fst (concat_fst (concat_fst (concat_fst
       (delete_fst (accep ''day:''))
       delete_space)
       (delete_fst (accep ''"'')))
       (closure1 NEMO_NOT_QUOTE))
       (delete_fst (accep ''"''))\<close>

definition graph_dm :: "wfst \<Rightarrow> wfst" where
  "graph_dm gm = concat_fst (concat_fst (concat_fst (concat_fst
       day
       delete_extra_space)
       (insert_fst ''de''))
       insert_space)
       (month gm)"

definition optional_preserve_order :: wfst where
  \<open>optional_preserve_order = closure (union_fst
     (concat_fst (concat_fst (concat_fst
        (delete_fst (accep ''preserve_order:''))
        delete_space)
        (delete_fst (accep ''true'')))
        delete_space)
     (concat_fst (concat_fst (concat_fst (concat_fst (concat_fst
        (delete_fst (accep ''field_order:''))
        delete_space)
        (delete_fst (accep ''"'')))
        NEMO_NOT_QUOTE)
        (delete_fst (accep ''"'')))
        delete_space))\<close>

definition final_graph :: "wfst \<Rightarrow> wfst" where
  "final_graph gm =
     concat_fst (union_fst (graph_dm gm) year) (concat_fst delete_space optional_preserve_order)"

definition DateFst :: "(string \<times> string) list \<Rightarrow> (string \<times> string) list \<Rightarrow> wfst" where
  "DateFst months months_cased =
     optimize (delete_tokens ''date'' (final_graph (graph_month months months_cased)))"

section \<open>hi/verbalizers/verbalize_final.py\<close>

text \<open>
  The verbalizer of a sentence. The grammars \<open>VerbalizeFst().fst\<close> and \<open>WordFst().fst\<close>
  are parameters. \<open>token_graph\<close> is the first value of the local \<open>graph\<close>, one
  \<open>tokens { ... }\<close> block; \<open>VerbalizeFinalFst\<close> is its second value, the grammar of the
  class.
\<close>

definition token_graph :: "wfst \<Rightarrow> wfst \<Rightarrow> wfst" where
  "token_graph verbalize word =
     (let types = union_fst verbalize word
      in concat_fst (concat_fst (concat_fst (concat_fst (concat_fst (concat_fst
           (delete_fst (accep ''tokens''))
           delete_space)
           (delete_fst (accep ''{'')))
           delete_space)
           types)
           delete_space)
           (delete_fst (accep ''}'')))"

definition VerbalizeFinalFst :: "wfst \<Rightarrow> wfst \<Rightarrow> wfst" where
  "VerbalizeFinalFst verbalize word =
     (let graph = token_graph verbalize word
      in concat_fst (concat_fst (concat_fst
           delete_space
           (closure (concat_fst graph delete_extra_space)))
           graph)
           delete_space)"

section \<open>Notions of the specification\<close>

text \<open>\<open>capitalize_first_letter\<close>: the string with only its first character
  upper-cased.\<close>

definition to_upper_char :: "char \<Rightarrow> char" where
  "to_upper_char c =
     (case map_of (zip ascii_lowercase ascii_uppercase) c of Some u \<Rightarrow> u | None \<Rightarrow> c)"

definition capitalize_first_letter :: "string \<Rightarrow> string" where
  "capitalize_first_letter s = (case s of [] \<Rightarrow> [] | c # r \<Rightarrow> to_upper_char c # r)"

text \<open>The endings that select a rule of the plural: a consonant and \<open>y\<close>; one of
  \<open>s\<close>, \<open>sh\<close>, \<open>ch\<close>, \<open>x\<close>, \<open>z\<close>.\<close>

definition ends_consonant_y :: "string \<Rightarrow> bool" where
  "ends_consonant_y w =
     (2 \<le> length w \<and> last w = CHR ''y'' \<and> last (butlast w) \<in> set ''bcdfghjklmnpqrstvwxyz'')"

definition ends_sibilant :: "string \<Rightarrow> bool" where
  "ends_sibilant w =
     (suffix ''s'' w \<or> suffix ''sh'' w \<or> suffix ''ch'' w \<or> suffix ''x'' w \<or> suffix ''z'' w)"

section \<open>Reading a prefix\<close>

text \<open>
  \<open>reads f s\<close>: the ways in which \<open>f\<close> reads a prefix of \<open>s\<close>, each with the output and
  with what is left of \<open>s\<close>. Concatenation reads from left to right.
\<close>

definition reads :: "wfst \<Rightarrow> string \<Rightarrow> (string \<times> string) set" where
  "reads f s = {(x, r). \<exists>p. s = p @ r \<and> x \<in> outputs f p}"

text \<open>\<open>star n s\<close>: the prefixes of \<open>s\<close> made of characters of a class, where \<open>n s\<close> is
  the number of bytes of the character of the class at the head of \<open>s\<close> (0 for none).\<close>

function star :: "(string \<Rightarrow> nat) \<Rightarrow> string \<Rightarrow> (string \<times> string) list" where
  "star n s = ([], s) #
     (if 0 < n s \<and> n s \<le> length s
      then map (\<lambda>(p, r). (take (n s) s @ p, r)) (star n (drop (n s) s))
      else [])"
  by pat_completeness auto
termination
  by (relation "measure (\<lambda>(n, s). length s)") auto

declare star.simps [simp del]

definition white_space_len :: "string \<Rightarrow> nat" where
  "white_space_len s =
     (case s of
        [] \<Rightarrow> 0
      | c # r \<Rightarrow>
          if c \<in> {CHR '' '', CHR 0x09, CHR 0x0A, CHR 0x0D} then 1
          else if c = CHR 0xC2 then (case r of d # _ \<Rightarrow> if d = CHR 0xA0 then 2 else 0 | [] \<Rightarrow> 0)
          else 0)"

definition not_quote_len :: "string \<Rightarrow> nat" where
  "not_quote_len s = (case s of [] \<Rightarrow> 0 | c # r \<Rightarrow> if c = CHR 0x22 then 0 else char_len s)"

section \<open>The relation of a transducer\<close>

lemma outputs_accep: "outputs (accep lit) s = (if s = lit then {lit} else {})"
  by (simp add: outputs_def accep_def)


lemma outputs_iff: "x \<in> outputs f s \<longleftrightarrow> (\<exists>w. (x, w) \<in> set (f s))"
  unfolding outputs_def by force

lemma set_concat_fst:
  "set (concat_fst f g s) =
     (\<Union>k\<in>{..length s}. \<Union>a\<in>set (f (take k s)).
        (\<lambda>b. (fst a @ fst b, snd a + snd b)) ` set (g (drop k s)))"
  by (simp add: concat_fst_def case_prod_beta atLeast0LessThan lessThan_Suc_atMost del: upt_Suc)

lemma outputs_concat_iff:
  "x \<in> outputs (concat_fst f g) s \<longleftrightarrow>
     (\<exists>k\<le>length s. \<exists>o1\<in>outputs f (take k s). \<exists>o2\<in>outputs g (drop k s). x = o1 @ o2)"
  (is "?L \<longleftrightarrow> ?R")
proof
  assume ?L
  then obtain w where "(x, w) \<in> set (concat_fst f g s)"
    unfolding outputs_iff by blast
  then obtain k a b where kab: "k \<le> length s" "a \<in> set (f (take k s))"
    "b \<in> set (g (drop k s))" "(x, w) = (fst a @ fst b, snd a + snd b)"
    unfolding set_concat_fst by blast
  have "fst a \<in> outputs f (take k s)" "fst b \<in> outputs g (drop k s)"
    using kab(2,3) unfolding outputs_def by simp_all
  moreover have "x = fst a @ fst b" using kab(4) by simp
  ultimately show ?R using kab(1) by blast
next
  assume ?R
  then obtain k o1 o2 where h: "k \<le> length s" "o1 \<in> outputs f (take k s)"
    "o2 \<in> outputs g (drop k s)" "x = o1 @ o2"
    by blast
  from h(2,3) obtain w1 w2 where w: "(o1, w1) \<in> set (f (take k s))"
    "(o2, w2) \<in> set (g (drop k s))"
    unfolding outputs_iff by blast
  have "(fst (o1, w1) @ fst (o2, w2), snd (o1, w1) + snd (o2, w2)) \<in> set (concat_fst f g s)"
    unfolding set_concat_fst using h(1) w by blast
  then have "(x, w1 + w2) \<in> set (concat_fst f g s)"
    using h(4) by simp
  then show ?L unfolding outputs_iff by blast
qed

lemma accepts_outputs: "accepts f s \<longleftrightarrow> outputs f s \<noteq> {}"
  by (simp add: accepts_def outputs_def)

lemma outputs_cross: "outputs (cross f b) s = (if accepts f s then {b} else {})"
  by (simp add: outputs_def cross_def accepts_def image_image case_prod_beta image_constant_conv)

lemma outputs_insert: "outputs (insert_fst x) s = (if s = [] then {x} else {})"
  by (simp add: insert_fst_def outputs_cross accepts_outputs outputs_accep)

lemma outputs_delete: "outputs (delete_fst f) s = (if accepts f s then {[]} else {})"
  by (simp add: delete_fst_def outputs_cross)

lemma outputs_union: "outputs (union_fst f g) s = outputs f s \<union> outputs g s"
  by (simp add: outputs_def union_fst_def image_Un)

lemma outputs_unions: "outputs (unions fs) s = (\<Union>f\<in>set fs. outputs f s)"
  by (simp add: outputs_def unions_def image_UN)

lemma outputs_concatI:
  "o1 \<in> outputs f s1 \<Longrightarrow> o2 \<in> outputs g s2 \<Longrightarrow> o1 @ o2 \<in> outputs (concat_fst f g) (s1 @ s2)"
  unfolding outputs_concat_iff
  apply (rule exI[of _ "length s1"])
  apply simp
  apply blast
  done

lemma outputs_concatE:
  assumes "x \<in> outputs (concat_fst f g) s"
  obtains s1 s2 o1 o2 where "s = s1 @ s2" "x = o1 @ o2" "o1 \<in> outputs f s1" "o2 \<in> outputs g s2"
proof -
  from assms obtain k o1 o2 where h: "o1 \<in> outputs f (take k s)"
    "o2 \<in> outputs g (drop k s)" "x = o1 @ o2"
    unfolding outputs_concat_iff by blast
  have "s = take k s @ drop k s" by simp
  from this h(3) h(1) h(2) show thesis by (rule that)
qed

lemma outputs_compose: "outputs (compose f g) s = (\<Union>o1\<in>outputs f s. outputs g o1)"
  by (simp add: outputs_def compose_def image_UN image_image case_prod_beta)

lemma outputs_difference: "outputs (difference a b) s = (if accepts b s then {} else outputs a s)"
  by (simp add: outputs_def difference_def accepts_def)

lemma outputs_project_input: "outputs (project_input f) s = (if accepts f s then {s} else {})"
  by (simp add: outputs_def project_input_def accepts_def image_image case_prod_beta
      image_constant_conv)


lemma outputs_optimize: "outputs (optimize f) s = outputs f s"
  by (simp add: optimize_def)

lemma outputs_string_map: "outputs (string_map tbl) s = {v. (s, v) \<in> set tbl}"
proof -
  have "outputs (string_map tbl) s = snd ` {p \<in> set tbl. fst p = s}"
    by (simp add: outputs_def string_map_def image_image case_prod_beta)
  also have "\<dots> = {v. (s, v) \<in> set tbl}"
    by (rule set_eqI) (auto simp: image_iff)
  finally show ?thesis .
qed

lemma outputs_cdrewrite:
  "outputs (cdrewrite a b sigma) s = (if accepts sigma s then {rewrite_all a b s} else {})"
  by (simp add: outputs_def cdrewrite_def accepts_def image_image case_prod_beta
      image_constant_conv)

lemma set_closure:
  "s \<noteq> [] \<Longrightarrow> set (closure f s) =
     (\<Union>k\<in>{1..length s}. \<Union>a\<in>set (f (take k s)).
        (\<lambda>b. (fst a @ fst b, snd a + snd b)) ` set (closure f (drop k s)))"
  by (subst closure.simps)
    (simp add: case_prod_beta atLeastLessThanSuc_atLeastAtMost del: upt_Suc)

lemma outputs_closure_Nil: "outputs (closure f) [] = {[]}"
  by (subst outputs_def, subst closure.simps) simp

lemma outputs_closure_iff:
  assumes "s \<noteq> []"
  shows "x \<in> outputs (closure f) s \<longleftrightarrow>
     (\<exists>k. 1 \<le> k \<and> k \<le> length s \<and>
        (\<exists>o1\<in>outputs f (take k s). \<exists>o2\<in>outputs (closure f) (drop k s). x = o1 @ o2))"
  (is "?L \<longleftrightarrow> ?R")
proof
  assume ?L
  then obtain w where "(x, w) \<in> set (closure f s)"
    unfolding outputs_iff by blast
  then obtain k a b where kab: "1 \<le> k" "k \<le> length s" "a \<in> set (f (take k s))"
    "b \<in> set (closure f (drop k s))" "(x, w) = (fst a @ fst b, snd a + snd b)"
    unfolding set_closure[OF assms] by auto
  have "fst a \<in> outputs f (take k s)" "fst b \<in> outputs (closure f) (drop k s)"
    using kab(3,4) unfolding outputs_def by simp_all
  moreover have "x = fst a @ fst b" using kab(5) by simp
  ultimately show ?R using kab(1,2) by blast
next
  assume ?R
  then obtain k o1 o2 where h: "1 \<le> k" "k \<le> length s" "o1 \<in> outputs f (take k s)"
    "o2 \<in> outputs (closure f) (drop k s)" "x = o1 @ o2"
    by blast
  from h(3,4) obtain w1 w2 where w: "(o1, w1) \<in> set (f (take k s))"
    "(o2, w2) \<in> set (closure f (drop k s))"
    unfolding outputs_iff by blast
  have "k \<in> {1..length s}" using h(1,2) by simp
  then have "(fst (o1, w1) @ fst (o2, w2), snd (o1, w1) + snd (o2, w2)) \<in> set (closure f s)"
    unfolding set_closure[OF assms] using w by blast
  then have "(x, w1 + w2) \<in> set (closure f s)"
    using h(5) by simp
  then show ?L unfolding outputs_iff by blast
qed


subsection \<open>Characters and texts\<close>

lemma ascii_not_cont: "ascii c \<Longrightarrow> \<not> cont_byte c"
  by (simp add: ascii_def cont_byte_def)

lemma char_len_le: "char_len s \<le> length s"
  by (cases s) (auto split: list.splits)

lemma char_len_append: "0 < char_len p \<Longrightarrow> char_len (p @ q) = char_len p"
  by (cases p) (auto split: if_splits list.splits)

lemma char_len_take: "0 < char_len s \<Longrightarrow> char_len (take (char_len s) s) = char_len s"
  by (cases s) (auto split: if_splits list.splits)

lemma char_len_snoc:
  "p \<noteq> [] \<Longrightarrow> ascii c \<Longrightarrow> char_len (p @ [c]) = char_len p"
  by (cases p) (auto simp: ascii_not_cont split: if_splits list.splits)

lemma char_len_ascii [simp]: "ascii c \<Longrightarrow> char_len (c # s) = 1"
  by simp

lemma is_char_take:
  assumes "1 \<le> k" "k \<le> length s"
  shows "is_char (take k s) \<longleftrightarrow> char_len s = k"
proof
  assume "is_char (take k s)"
  then have k: "char_len (take k s) = k"
    using assms by (simp add: is_char_def)
  then have "0 < char_len (take k s)" using assms by simp
  then have "char_len (take k s @ drop k s) = char_len (take k s)"
    by (rule char_len_append)
  then show "char_len s = k" using k by simp
next
  assume h: "char_len s = k"
  then have "0 < char_len s" using assms by simp
  then have "char_len (take (char_len s) s) = char_len s" by (rule char_len_take)
  then have "char_len (take k s) = k" using h by simp
  moreover have "take k s \<noteq> []" using assms by auto
  ultimately show "is_char (take k s)" using assms by (simp add: is_char_def)
qed

lemma outputs_VALID_UTF8_CHAR: "outputs VALID_UTF8_CHAR s = (if is_char s then {s} else {})"
  by (simp add: outputs_def VALID_UTF8_CHAR_def)

lemma outputs_NEMO_CHAR: "outputs NEMO_CHAR s = (if is_char s then {s} else {})"
  by (simp add: NEMO_CHAR_def outputs_VALID_UTF8_CHAR)

lemma utf8_text_Nil [simp]: "utf8_text []"
  by (simp add: utf8_text.simps)

lemma utf8_text_step:
  "s \<noteq> [] \<Longrightarrow> utf8_text s \<longleftrightarrow> 0 < char_len s \<and> utf8_text (drop (char_len s) s)"
  by (subst utf8_text.simps) simp

lemma utf8_text_ascii_Cons [simp]: "ascii c \<Longrightarrow> utf8_text (c # s) = utf8_text s"
  by (subst utf8_text.simps) simp

lemma outputs_NEMO_SIGMA: "outputs NEMO_SIGMA s = (if utf8_text s then {s} else {})"
proof (induction s rule: length_induct)
  case (1 s)
  show ?case
  proof (cases "s = []")
    case True
    then show ?thesis by (simp add: NEMO_SIGMA_def outputs_closure_Nil)
  next
    case False
    let ?n = "char_len s"
    have ih: "0 < ?n \<Longrightarrow>
      outputs NEMO_SIGMA (drop ?n s) = (if utf8_text (drop ?n s) then {drop ?n s} else {})"
      using 1 False by simp
    have "x \<in> outputs NEMO_SIGMA s \<longleftrightarrow> utf8_text s \<and> x = s" for x
    proof
      assume "x \<in> outputs NEMO_SIGMA s"
      then obtain k o1 o2 where k: "1 \<le> k" "k \<le> length s"
        "o1 \<in> outputs NEMO_CHAR (take k s)" "o2 \<in> outputs NEMO_SIGMA (drop k s)" "x = o1 @ o2"
        unfolding NEMO_SIGMA_def outputs_closure_iff[OF False] by blast
      from k(3) have c: "is_char (take k s)" "o1 = take k s"
        by (simp_all add: outputs_NEMO_CHAR split: if_splits)
      from c(1) have n: "?n = k" using is_char_take[OF k(1,2)] by simp
      then have pos: "0 < ?n" using k(1) by simp
      from k(4) have "utf8_text (drop ?n s)" "o2 = drop ?n s"
        using ih[OF pos] n by (simp_all split: if_splits)
      then show "utf8_text s \<and> x = s"
        using utf8_text_step[OF False] pos k(5) c(2) n by simp
    next
      assume h: "utf8_text s \<and> x = s"
      then have pos: "0 < ?n" and t: "utf8_text (drop ?n s)"
        using utf8_text_step[OF False] by simp_all
      have le: "?n \<le> length s" by (rule char_len_le)
      have "is_char (take ?n s)" using is_char_take[of ?n s] pos le by simp
      then have a: "take ?n s \<in> outputs NEMO_CHAR (take ?n s)"
        by (simp add: outputs_NEMO_CHAR)
      have b: "drop ?n s \<in> outputs NEMO_SIGMA (drop ?n s)"
        using ih[OF pos] t by simp
      have "take ?n s @ drop ?n s \<in> outputs NEMO_SIGMA s"
        unfolding NEMO_SIGMA_def outputs_closure_iff[OF False]
        using pos le a b unfolding NEMO_SIGMA_def
        by (intro exI[of _ ?n] conjI bexI[of _ "take ?n s"] bexI[of _ "drop ?n s"]) simp_all
      then show "x \<in> outputs NEMO_SIGMA s" using h by simp
    qed
    then show ?thesis by auto
  qed
qed

lemma accepts_NEMO_SIGMA: "accepts NEMO_SIGMA s \<longleftrightarrow> utf8_text s"
  by (simp add: accepts_outputs outputs_NEMO_SIGMA)

lemma utf8_text_append: "utf8_text p \<Longrightarrow> utf8_text q \<Longrightarrow> utf8_text (p @ q)"
proof (induction p rule: length_induct)
  case (1 p)
  show ?case
  proof (cases "p = []")
    case True
    then show ?thesis using 1 by simp
  next
    case False
    from 1(2) have pos: "0 < char_len p" and t: "utf8_text (drop (char_len p) p)"
      using utf8_text_step[OF False] by simp_all
    have le: "char_len p \<le> length p" by (rule char_len_le)
    have "utf8_text (drop (char_len p) p @ q)"
      using 1(1) t 1(3) pos False by simp
    moreover have "char_len (p @ q) = char_len p" using pos by (rule char_len_append)
    ultimately show ?thesis
      using utf8_text_step[of "p @ q"] False pos le by simp
  qed
qed

lemma utf8_text_snoc:
  assumes "ascii c"
  shows "utf8_text (p @ [c]) \<longleftrightarrow> utf8_text p"
proof
  assume "utf8_text p"
  moreover have "utf8_text [c]" using assms by simp
  ultimately show "utf8_text (p @ [c])" by (rule utf8_text_append)
next
  show "utf8_text (p @ [c]) \<Longrightarrow> utf8_text p"
  proof (induction p rule: length_induct)
    case (1 p)
    show ?case
    proof (cases "p = []")
      case True
      then show ?thesis by simp
    next
      case False
      have n: "char_len (p @ [c]) = char_len p" using False assms by (rule char_len_snoc)
      have le: "char_len p \<le> length p" by (rule char_len_le)
      from 1(2) have pos: "0 < char_len p"
        and t: "utf8_text (drop (char_len p) (p @ [c]))"
        using utf8_text_step[of "p @ [c]"] n by simp_all
      from t have "utf8_text (drop (char_len p) p @ [c])" using le by simp
      then have "utf8_text (drop (char_len p) p)"
        using 1(1) pos False by simp
      then show ?thesis using utf8_text_step[OF False] pos by simp
    qed
  qed
qed

lemma utf8_text_append_ascii:
  "list_all ascii q \<Longrightarrow> utf8_text (p @ q) \<longleftrightarrow> utf8_text p"
proof (induction q rule: rev_induct)
  case Nil
  then show ?case by simp
next
  case (snoc c q)
  then have "ascii c" "list_all ascii q" by simp_all
  then show ?case
    using utf8_text_snoc[of c "p @ q"] snoc.IH by simp
qed

lemma utf8_text_two:
  "192 \<le> (of_char a :: nat) \<Longrightarrow> (of_char a :: nat) \<le> 223 \<Longrightarrow> cont_byte b \<Longrightarrow>
   utf8_text (a # b # s) = utf8_text s"
  by (subst utf8_text.simps) (simp add: ascii_def)

subsection \<open>Reading from left to right\<close>

lemma outputs_concat_app_iff:
  "x \<in> outputs (concat_fst f g) s \<longleftrightarrow>
     (\<exists>p q o1 o2. s = p @ q \<and> x = o1 @ o2 \<and> o1 \<in> outputs f p \<and> o2 \<in> outputs g q)"
proof
  assume "x \<in> outputs (concat_fst f g) s"
  then show "\<exists>p q o1 o2. s = p @ q \<and> x = o1 @ o2 \<and> o1 \<in> outputs f p \<and> o2 \<in> outputs g q"
    by (rule outputs_concatE) blast
next
  assume "\<exists>p q o1 o2. s = p @ q \<and> x = o1 @ o2 \<and> o1 \<in> outputs f p \<and> o2 \<in> outputs g q"
  then show "x \<in> outputs (concat_fst f g) s"
    using outputs_concatI by blast
qed

lemma outputs_closure_app_iff:
  "x \<in> outputs (closure f) s \<longleftrightarrow>
     (s = [] \<and> x = []) \<or>
     (\<exists>p q o1 o2. s = p @ q \<and> p \<noteq> [] \<and> x = o1 @ o2 \<and> o1 \<in> outputs f p \<and>
        o2 \<in> outputs (closure f) q)"
proof (cases "s = []")
  case True
  then show ?thesis by (simp add: outputs_closure_Nil)
next
  case False
  show ?thesis
  proof
    assume "x \<in> outputs (closure f) s"
    then obtain k o1 o2 where k: "1 \<le> k" "k \<le> length s" "o1 \<in> outputs f (take k s)"
      "o2 \<in> outputs (closure f) (drop k s)" "x = o1 @ o2"
      unfolding outputs_closure_iff[OF False] by blast
    have "s = take k s @ drop k s" by simp
    moreover have "take k s \<noteq> []" using k(1) False by auto
    ultimately show "(s = [] \<and> x = []) \<or>
     (\<exists>p q o1 o2. s = p @ q \<and> p \<noteq> [] \<and> x = o1 @ o2 \<and> o1 \<in> outputs f p \<and>
        o2 \<in> outputs (closure f) q)"
      using k(3,4,5) by blast
  next
    assume "(s = [] \<and> x = []) \<or>
     (\<exists>p q o1 o2. s = p @ q \<and> p \<noteq> [] \<and> x = o1 @ o2 \<and> o1 \<in> outputs f p \<and>
        o2 \<in> outputs (closure f) q)"
    then obtain p q o1 o2 where h: "s = p @ q" "p \<noteq> []" "x = o1 @ o2" "o1 \<in> outputs f p"
      "o2 \<in> outputs (closure f) q"
      using False by blast
    have "1 \<le> length p" using h(2) by (cases p) simp_all
    moreover have "length p \<le> length s" using h(1) by simp
    moreover have "o1 \<in> outputs f (take (length p) s)" using h(1,4) by simp
    moreover have "o2 \<in> outputs (closure f) (drop (length p) s)" using h(1,5) by simp
    ultimately show "x \<in> outputs (closure f) s"
      unfolding outputs_closure_iff[OF False] using h(3) by blast
  qed
qed

lemma reads_iff: "(x, r) \<in> reads f s \<longleftrightarrow> (\<exists>p. s = p @ r \<and> x \<in> outputs f p)"
  by (simp add: reads_def)

lemma outputs_reads: "x \<in> outputs f s \<longleftrightarrow> (x, []) \<in> reads f s"
  by (simp add: reads_def)

lemma reads_length: "(x, r) \<in> reads f s \<Longrightarrow> length r \<le> length s"
  by (auto simp: reads_def)

lemma reads_concat_iff:
  "(x, r) \<in> reads (concat_fst f g) s \<longleftrightarrow>
     (\<exists>o1 r1 o2. (o1, r1) \<in> reads f s \<and> (o2, r) \<in> reads g r1 \<and> x = o1 @ o2)"
proof
  assume "(x, r) \<in> reads (concat_fst f g) s"
  then obtain p q o1 o2 where h: "s = (p @ q) @ r" "x = o1 @ o2" "o1 \<in> outputs f p"
    "o2 \<in> outputs g q"
    unfolding reads_iff outputs_concat_app_iff by blast
  have "(o1, q @ r) \<in> reads f s" unfolding reads_iff using h(1,3) by auto
  moreover have "(o2, r) \<in> reads g (q @ r)" unfolding reads_iff using h(4) by auto
  ultimately show "\<exists>o1 r1 o2. (o1, r1) \<in> reads f s \<and> (o2, r) \<in> reads g r1 \<and> x = o1 @ o2"
    using h(2) by blast
next
  assume "\<exists>o1 r1 o2. (o1, r1) \<in> reads f s \<and> (o2, r) \<in> reads g r1 \<and> x = o1 @ o2"
  then obtain o1 r1 o2 p q where h: "s = p @ r1" "o1 \<in> outputs f p" "r1 = q @ r"
    "o2 \<in> outputs g q" "x = o1 @ o2"
    unfolding reads_iff by blast
  have "s = (p @ q) @ r" using h(1,3) by simp
  moreover have "x \<in> outputs (concat_fst f g) (p @ q)"
    unfolding h(5) using h(2,4) by (rule outputs_concatI)
  ultimately show "(x, r) \<in> reads (concat_fst f g) s"
    unfolding reads_iff by blast
qed

lemma reads_concat:
  "reads (concat_fst f g) s =
     (\<Union>(o1, r1)\<in>reads f s. (\<lambda>(o2, r). (o1 @ o2, r)) ` reads g r1)"
proof (rule set_eqI)
  fix z :: "string \<times> string"
  obtain x r where z: "z = (x, r)" by (cases z)
  show "z \<in> reads (concat_fst f g) s \<longleftrightarrow>
     z \<in> (\<Union>(o1, r1)\<in>reads f s. (\<lambda>(o2, r). (o1 @ o2, r)) ` reads g r1)"
  proof
    assume "z \<in> reads (concat_fst f g) s"
    then obtain o1 r1 o2 where h: "(o1, r1) \<in> reads f s" "(o2, r) \<in> reads g r1" "x = o1 @ o2"
      unfolding z reads_concat_iff by blast
    have "(x, r) \<in> (\<lambda>(o2, r). (o1 @ o2, r)) ` reads g r1"
      using h(2,3) by (auto simp: image_iff intro!: bexI[of _ "(o2, r)"])
    then show "z \<in> (\<Union>(o1, r1)\<in>reads f s. (\<lambda>(o2, r). (o1 @ o2, r)) ` reads g r1)"
      unfolding z using h(1) by (auto intro!: bexI[of _ "(o1, r1)"])
  next
    assume "z \<in> (\<Union>(o1, r1)\<in>reads f s. (\<lambda>(o2, r). (o1 @ o2, r)) ` reads g r1)"
    then show "z \<in> reads (concat_fst f g) s"
      unfolding z reads_concat_iff by auto
  qed
qed

lemma reads_union: "reads (union_fst f g) s = reads f s \<union> reads g s"
  by (auto simp: reads_def outputs_union)

lemma reads_unions: "reads (unions fs) s = (\<Union>f\<in>set fs. reads f s)"
  by (auto simp: reads_def outputs_unions)

lemma reads_optimize: "reads (optimize f) s = reads f s"
  by (simp add: optimize_def)

lemma reads_accep:
  "reads (accep lit) s = (if prefix lit s then {(lit, drop (length lit) s)} else {})"
  by (auto simp: reads_def outputs_accep prefix_def)

lemma reads_cross: "reads (cross f b) s = (\<lambda>(x, r). (b, r)) ` reads f s"
  by (auto simp: reads_def outputs_cross accepts_outputs image_iff split: if_splits)

lemma reads_delete: "reads (delete_fst f) s = (\<lambda>(x, r). ([], r)) ` reads f s"
  by (simp add: delete_fst_def reads_cross)

lemma reads_insert: "reads (insert_fst x) s = {(x, s)}"
  by (auto simp: reads_def outputs_insert)

lemma reads_delete_accep:
  "reads (delete_fst (accep lit)) s = (if prefix lit s then {([], drop (length lit) s)} else {})"
  by (simp add: reads_delete reads_accep)

lemma reads_string_map:
  "reads (string_map tbl) s = (\<Union>(k, v)\<in>set tbl. if prefix k s then {(v, drop (length k) s)} else {})"
  by (auto simp: reads_def outputs_string_map prefix_def split: if_splits)

lemma reads_closure_iff:
  "(x, r) \<in> reads (closure f) s \<longleftrightarrow>
     (x = [] \<and> r = s) \<or>
     (\<exists>o1 r1 o2. (o1, r1) \<in> reads f s \<and> length r1 < length s \<and>
        (o2, r) \<in> reads (closure f) r1 \<and> x = o1 @ o2)"
proof
  assume "(x, r) \<in> reads (closure f) s"
  then obtain p where p: "s = p @ r" "x \<in> outputs (closure f) p"
    unfolding reads_iff by blast
  from p(2) consider "p = []" "x = []"
    | p1 p2 o1 o2 where "p = p1 @ p2" "p1 \<noteq> []" "x = o1 @ o2" "o1 \<in> outputs f p1"
        "o2 \<in> outputs (closure f) p2"
    using outputs_closure_app_iff[of x f p] by blast
  then show "(x = [] \<and> r = s) \<or>
     (\<exists>o1 r1 o2. (o1, r1) \<in> reads f s \<and> length r1 < length s \<and>
        (o2, r) \<in> reads (closure f) r1 \<and> x = o1 @ o2)"
  proof cases
    case 1
    then show ?thesis using p(1) by simp
  next
    case 2
    have "(o1, p2 @ r) \<in> reads f s" unfolding reads_iff using p(1) 2(1,4) by auto
    moreover have "length (p2 @ r) < length s" using p(1) 2(1,2) by (cases p1) simp_all
    moreover have "(o2, r) \<in> reads (closure f) (p2 @ r)" unfolding reads_iff using 2(5) by auto
    ultimately show ?thesis using 2(3) by blast
  qed
next
  assume "(x = [] \<and> r = s) \<or>
     (\<exists>o1 r1 o2. (o1, r1) \<in> reads f s \<and> length r1 < length s \<and>
        (o2, r) \<in> reads (closure f) r1 \<and> x = o1 @ o2)"
  then consider "x = []" "r = s"
    | o1 r1 o2 where "(o1, r1) \<in> reads f s" "length r1 < length s"
        "(o2, r) \<in> reads (closure f) r1" "x = o1 @ o2"
    by blast
  then show "(x, r) \<in> reads (closure f) s"
  proof cases
    case 1
    have "s = [] @ r" using 1(2) by simp
    moreover have "x \<in> outputs (closure f) []" using 1(1) by (simp add: outputs_closure_Nil)
    ultimately show ?thesis unfolding reads_iff by blast
  next
    case 2
    from 2(1) obtain p where p: "s = p @ r1" "o1 \<in> outputs f p" unfolding reads_iff by blast
    from 2(3) obtain q where q: "r1 = q @ r" "o2 \<in> outputs (closure f) q"
      unfolding reads_iff by blast
    have ne: "p \<noteq> []" using p(1) 2(2) by auto
    have "x \<in> outputs (closure f) (p @ q)"
      using outputs_closure_app_iff[of x f "p @ q"] ne p(2) q(2) 2(4) by blast
    moreover have "s = (p @ q) @ r" using p(1) q(1) by simp
    ultimately show ?thesis unfolding reads_iff by blast
  qed
qed

lemma star_reads:
  assumes rd: "\<And>s. reads f s = (if 0 < n s then {(take (n s) s, drop (n s) s)} else {})"
    and le: "\<And>s. n s \<le> length s"
  shows "reads (closure f) s = set (star n s)"
proof (induction s rule: length_induct)
  case (1 s)
  show ?case
  proof (cases "0 < n s")
    case False
    have e: "reads f s = {}" using rd[of s] False by simp
    have "(x, r) \<in> reads (closure f) s \<longleftrightarrow> x = [] \<and> r = s" for x r
      by (subst reads_closure_iff) (simp add: e)
    then have "reads (closure f) s = {([], s)}" by auto
    moreover have "star n s = [([], s)]" using False by (subst star.simps) simp
    ultimately show ?thesis by simp
  next
    case True
    let ?d = "drop (n s) s"
    have lt: "length ?d < length s" using True le[of s] by (cases s) auto
    have ih: "reads (closure f) ?d = set (star n ?d)" using 1 lt by simp
    have st: "star n s = ([], s) # map (\<lambda>(p, r). (take (n s) s @ p, r)) (star n ?d)"
      using True le[of s] by (subst star.simps) simp
    have e: "reads f s = {(take (n s) s, ?d)}" using rd[of s] True by simp
    have "(x, r) \<in> reads (closure f) s \<longleftrightarrow> (x, r) \<in> set (star n s)" for x r
    proof -
      have "(x, r) \<in> reads (closure f) s \<longleftrightarrow>
          (x = [] \<and> r = s) \<or> (\<exists>o2. (o2, r) \<in> reads (closure f) ?d \<and> x = take (n s) s @ o2)"
        using lt by (subst reads_closure_iff) (simp add: e)
      also have "\<dots> \<longleftrightarrow> (x, r) \<in> set (star n s)"
        unfolding st ih by (auto simp: image_iff)
      finally show ?thesis .
    qed
    then show ?thesis by auto
  qed
qed

lemma star_tl_reads:
  assumes rd: "\<And>s. reads f s = (if 0 < n s then {(take (n s) s, drop (n s) s)} else {})"
    and le: "\<And>s. n s \<le> length s"
  shows "reads (closure1 f) s = set (tl (star n s))"
proof (cases "0 < n s")
  case False
  then show ?thesis
    by (subst star.simps) (simp add: closure1_def reads_concat rd)
next
  case True
  then show ?thesis
    using le[of s]
    by (subst star.simps) (simp add: closure1_def reads_concat rd star_reads[OF rd le])
qed


lemma reads_NEMO_CHAR:
  "reads NEMO_CHAR s =
     (if 0 < char_len s then {(take (char_len s) s, drop (char_len s) s)} else {})"
proof -
  have "(x, r) \<in> reads NEMO_CHAR s \<longleftrightarrow>
          0 < char_len s \<and> x = take (char_len s) s \<and> r = drop (char_len s) s" for x r
  proof
    assume "(x, r) \<in> reads NEMO_CHAR s"
    then obtain p where p: "s = p @ r" "is_char p" "x = p"
      unfolding reads_iff by (auto simp: outputs_NEMO_CHAR split: if_splits)
    from p(2) have pos: "0 < char_len p" and len: "char_len p = length p"
      by (cases p; simp add: is_char_def)+
    have "char_len s = char_len p" unfolding p(1) using pos by (rule char_len_append)
    then show "0 < char_len s \<and> x = take (char_len s) s \<and> r = drop (char_len s) s"
      using pos len p(1,3) by simp
  next
    assume h: "0 < char_len s \<and> x = take (char_len s) s \<and> r = drop (char_len s) s"
    have le: "char_len s \<le> length s" by (rule char_len_le)
    have "is_char (take (char_len s) s)" using is_char_take[of "char_len s" s] h le by simp
    then have "x \<in> outputs NEMO_CHAR x" using h by (simp add: outputs_NEMO_CHAR)
    moreover have "s = x @ r" using h by simp
    ultimately show "(x, r) \<in> reads NEMO_CHAR s" unfolding reads_iff by blast
  qed
  then show ?thesis by (auto split: if_splits)
qed

lemma not_quote_len_le: "not_quote_len s \<le> length s"
  using char_len_le[of s] by (simp add: not_quote_len_def split: list.splits)

lemma reads_NEMO_NOT_QUOTE:
  "reads NEMO_NOT_QUOTE s =
     (if 0 < not_quote_len s then {(take (not_quote_len s) s, drop (not_quote_len s) s)} else {})"
proof -
  have "(x, r) \<in> reads NEMO_NOT_QUOTE s \<longleftrightarrow> (x, r) \<in> reads NEMO_CHAR s \<and> x \<noteq> [CHR 0x22]"
    for x r
    unfolding reads_iff
    by (auto simp: NEMO_NOT_QUOTE_def outputs_optimize outputs_difference accepts_outputs
        outputs_accep outputs_NEMO_CHAR split: if_splits)
  moreover have "take (char_len s) s = [CHR 0x22] \<longleftrightarrow> hd s = CHR 0x22" if "0 < char_len s"
    using that by (cases s) (auto simp: ascii_def split: if_splits list.splits)
  ultimately have "(x, r) \<in> reads NEMO_NOT_QUOTE s \<longleftrightarrow>
     0 < not_quote_len s \<and> x = take (not_quote_len s) s \<and> r = drop (not_quote_len s) s" for x r
    unfolding reads_NEMO_CHAR
    by (cases s) (auto simp: not_quote_len_def split: if_splits)
  then show ?thesis by (auto split: if_splits)
qed


lemma white_space_len_le: "white_space_len s \<le> length s"
  by (simp add: white_space_len_def split: list.splits)

lemma outputs_NEMO_WHITE_SPACE:
  "outputs NEMO_WHITE_SPACE p =
     (if p \<in> {'' '', [CHR 0x09], [CHR 0x0A], [CHR 0x0D], [CHR 0xC2, CHR 0xA0]} then {p} else {})"
  by (simp add: NEMO_WHITE_SPACE_def outputs_optimize outputs_unions outputs_accep
      NEMO_NON_BREAKING_SPACE_def)

lemma white_space_len_append:
  "p \<in> {'' '', [CHR 0x09], [CHR 0x0A], [CHR 0x0D], [CHR 0xC2, CHR 0xA0]} \<Longrightarrow>
   white_space_len (p @ r) = length p"
  by (auto simp: white_space_len_def)

lemma white_space_len_take:
  assumes "0 < white_space_len s"
  shows "take (white_space_len s) s \<in> {'' '', [CHR 0x09], [CHR 0x0A], [CHR 0x0D], [CHR 0xC2, CHR 0xA0]}"
proof (cases s)
  case Nil
  then show ?thesis using assms by (simp add: white_space_len_def)
next
  case (Cons c t)
  show ?thesis
  proof (cases "c \<in> {CHR '' '', CHR 0x09, CHR 0x0A, CHR 0x0D}")
    case True
    then have "white_space_len s = 1" by (simp add: white_space_len_def Cons)
    then show ?thesis using True Cons by auto
  next
    case False
    then have c: "c = CHR 0xC2" using assms Cons
      by (simp add: white_space_len_def split: if_splits)
    then obtain d u where t: "t = d # u" "d = CHR 0xA0" using assms Cons False
      by (cases t) (simp_all add: white_space_len_def split: if_splits)
    then have "white_space_len s = 2" using c Cons by (simp add: white_space_len_def)
    then show ?thesis using c t Cons by simp
  qed
qed

lemma reads_NEMO_WHITE_SPACE:
  "reads NEMO_WHITE_SPACE s =
     (if 0 < white_space_len s
      then {(take (white_space_len s) s, drop (white_space_len s) s)} else {})"
proof -
  let ?W = "{'' '', [CHR 0x09], [CHR 0x0A], [CHR 0x0D], [CHR 0xC2, CHR 0xA0]}"
  have "(x, r) \<in> reads NEMO_WHITE_SPACE s \<longleftrightarrow>
     0 < white_space_len s \<and> x = take (white_space_len s) s \<and> r = drop (white_space_len s) s"
    for x r
  proof
    assume "(x, r) \<in> reads NEMO_WHITE_SPACE s"
    then obtain p where p: "s = p @ r" "x \<in> outputs NEMO_WHITE_SPACE p"
      unfolding reads_iff by blast
    from p(2) have m: "p \<in> ?W" and xp: "x = p"
      unfolding outputs_NEMO_WHITE_SPACE by (simp_all split: if_splits)
    have l: "white_space_len s = length p" unfolding p(1) using m by (rule white_space_len_append)
    moreover have "0 < length p" using m by auto
    ultimately show "0 < white_space_len s \<and> x = take (white_space_len s) s \<and>
        r = drop (white_space_len s) s"
      using p(1) xp by simp
  next
    assume h: "0 < white_space_len s \<and> x = take (white_space_len s) s \<and>
        r = drop (white_space_len s) s"
    then have "x \<in> ?W" using white_space_len_take[of s] by simp
    then have "x \<in> outputs NEMO_WHITE_SPACE x" unfolding outputs_NEMO_WHITE_SPACE by simp
    moreover have "s = x @ r" using h by simp
    ultimately show "(x, r) \<in> reads NEMO_WHITE_SPACE s" unfolding reads_iff by blast
  qed
  then show ?thesis by (auto split: if_splits)
qed

lemmas reads_closure_WHITE_SPACE =
  star_reads[of NEMO_WHITE_SPACE white_space_len, OF reads_NEMO_WHITE_SPACE white_space_len_le]
lemmas reads_closure1_WHITE_SPACE =
  star_tl_reads[of NEMO_WHITE_SPACE white_space_len, OF reads_NEMO_WHITE_SPACE white_space_len_le]
lemmas reads_closure_NOT_QUOTE =
  star_reads[of NEMO_NOT_QUOTE not_quote_len, OF reads_NEMO_NOT_QUOTE not_quote_len_le]
lemmas reads_closure1_NOT_QUOTE =
  star_tl_reads[of NEMO_NOT_QUOTE not_quote_len, OF reads_NEMO_NOT_QUOTE not_quote_len_le]

lemma reads_delete_space:
  "reads delete_space s = (\<lambda>(x, r). ([], r)) ` set (star white_space_len s)"
  by (simp add: delete_space_def reads_delete reads_closure_WHITE_SPACE)

lemma reads_delete_extra_space:
  "reads delete_extra_space s = (\<lambda>(x, r). ('' '', r)) ` set (tl (star white_space_len s))"
  by (simp add: delete_extra_space_def reads_cross reads_closure1_WHITE_SPACE)

lemma star_Nil: "n [] = 0 \<Longrightarrow> star n [] = [([], [])]"
  by (subst star.simps) simp

lemma star_white_space_Nil [simp]: "star white_space_len [] = [([], [])]"
  by (subst star.simps) (simp add: white_space_len_def)

lemma star_white_space_Cons:
  "star white_space_len (c # s) = ([], c # s) #
     (if c \<in> {CHR '' '', CHR 0x09, CHR 0x0A, CHR 0x0D}
      then map (\<lambda>(p, r). (c # p, r)) (star white_space_len s)
      else if c = CHR 0xC2 \<and> s \<noteq> [] \<and> hd s = CHR 0xA0
      then map (\<lambda>(p, r). (c # hd s # p, r)) (star white_space_len (tl s))
      else [])"
  by (subst star.simps, cases s) (auto simp: white_space_len_def)

lemma star_not_quote_Nil [simp]: "star not_quote_len [] = [([], [])]"
  by (subst star.simps) (simp add: not_quote_len_def)

lemma star_not_quote_quote [simp]:
  "star not_quote_len (CHR 0x22 # s) = [([], CHR 0x22 # s)]"
  by (subst star.simps) (simp add: not_quote_len_def)

lemma star_not_quote_ascii:
  "ascii c \<Longrightarrow> c \<noteq> CHR 0x22 \<Longrightarrow>
   star not_quote_len (c # s) = ([], c # s) # map (\<lambda>(p, r). (c # p, r)) (star not_quote_len s)"
  by (subst star.simps) (simp add: not_quote_len_def)

lemma reads_closure_Nil: "reads (closure f) [] = {([], [])}"
  by (auto simp: reads_def outputs_closure_Nil)

lemma reads_closure_Cons:
  "reads (closure f) (c # s) = insert ([], c # s)
     (\<Union>(o1, r1)\<in>reads f (c # s).
        if length r1 < length (c # s) then (\<lambda>(o2, r). (o1 @ o2, r)) ` reads (closure f) r1 else {})"
proof -
  let ?U = "\<Union>(o1, r1)\<in>reads f (c # s).
        if length r1 < length (c # s) then (\<lambda>(o2, r). (o1 @ o2, r)) ` reads (closure f) r1 else {}"
  have "(x, r) \<in> reads (closure f) (c # s) \<longleftrightarrow> (x, r) \<in> insert ([], c # s) ?U" for x r
  proof -
    have "(x, r) \<in> ?U \<longleftrightarrow>
        (\<exists>o1 r1 o2. (o1, r1) \<in> reads f (c # s) \<and> length r1 < length (c # s) \<and>
           (o2, r) \<in> reads (closure f) r1 \<and> x = o1 @ o2)"
    proof
      assume "(x, r) \<in> ?U"
      then obtain o1 r1 where a: "(o1, r1) \<in> reads f (c # s)"
        "(x, r) \<in> (if length r1 < length (c # s)
            then (\<lambda>(o2, r). (o1 @ o2, r)) ` reads (closure f) r1 else {})"
        by auto
      from a(2) have l: "length r1 < length (c # s)" by (simp split: if_splits)
      with a(2) obtain o2 where "(o2, r) \<in> reads (closure f) r1" "x = o1 @ o2"
        by auto
      with a(1) l show "\<exists>o1 r1 o2. (o1, r1) \<in> reads f (c # s) \<and> length r1 < length (c # s) \<and>
           (o2, r) \<in> reads (closure f) r1 \<and> x = o1 @ o2"
        by blast
    next
      assume "\<exists>o1 r1 o2. (o1, r1) \<in> reads f (c # s) \<and> length r1 < length (c # s) \<and>
           (o2, r) \<in> reads (closure f) r1 \<and> x = o1 @ o2"
      then obtain o1 r1 o2 where h: "(o1, r1) \<in> reads f (c # s)" "length r1 < length (c # s)"
        "(o2, r) \<in> reads (closure f) r1" "x = o1 @ o2"
        by blast
      have "(x, r) \<in> (\<lambda>(o2, r). (o1 @ o2, r)) ` reads (closure f) r1"
        using h(3,4) by (auto simp: image_iff intro!: bexI[of _ "(o2, r)"])
      then show "(x, r) \<in> ?U"
        using h(1,2) by (auto intro!: bexI[of _ "(o1, r1)"])
    qed
    then show ?thesis
      by (subst reads_closure_iff) auto
  qed
  then show ?thesis by auto
qed

lemma outputs_eq_reads: "outputs f s = {x. (x, []) \<in> reads f s}"
  using outputs_reads by auto

lemmas reads_eval = reads_concat reads_union reads_delete_accep reads_delete_space
  reads_delete_extra_space reads_insert reads_closure1_NOT_QUOTE reads_NEMO_NOT_QUOTE
  reads_closure_Nil reads_closure_Cons
  star_white_space_Cons star_not_quote_ascii ascii_def not_quote_len_def

lemma reads_concat_assoc:
  "reads (concat_fst (concat_fst f g) h) s = reads (concat_fst f (concat_fst g h)) s"
proof -
  have "(x, r) \<in> reads (concat_fst (concat_fst f g) h) s \<longleftrightarrow>
        (x, r) \<in> reads (concat_fst f (concat_fst g h)) s" for x r
  proof
    assume "(x, r) \<in> reads (concat_fst (concat_fst f g) h) s"
    then obtain o1 r1 o2 r2 o3 where h: "(o1, r1) \<in> reads f s" "(o2, r2) \<in> reads g r1"
      "(o3, r) \<in> reads h r2" "x = (o1 @ o2) @ o3"
      unfolding reads_concat_iff by blast
    have "(o2 @ o3, r) \<in> reads (concat_fst g h) r1"
      unfolding reads_concat_iff using h(2,3) by blast
    then show "(x, r) \<in> reads (concat_fst f (concat_fst g h)) s"
      unfolding reads_concat_iff[of x r f] using h(1,4) by auto
  next
    assume "(x, r) \<in> reads (concat_fst f (concat_fst g h)) s"
    then obtain o1 r1 o2 r2 o3 where h: "(o1, r1) \<in> reads f s" "(o2, r2) \<in> reads g r1"
      "(o3, r) \<in> reads h r2" "x = o1 @ o2 @ o3"
      unfolding reads_concat_iff by blast
    have "(o1 @ o2, r2) \<in> reads (concat_fst f g) s"
      unfolding reads_concat_iff using h(1,2) by blast
    then show "(x, r) \<in> reads (concat_fst (concat_fst f g) h) s"
      unfolding reads_concat_iff[of x r "concat_fst f g"] using h(3,4)
      by (intro exI[of _ "o1 @ o2"] exI[of _ r2] exI[of _ o3]) simp
  qed
  then show ?thesis by auto
qed

lemma reads_string_map_iff:
  "(v, r) \<in> reads (string_map tbl) s \<longleftrightarrow> (\<exists>k. (k, v) \<in> set tbl \<and> s = k @ r)"
  by (auto simp: reads_iff outputs_string_map)

lemma reads_delete_accep_iff:
  "(x, r) \<in> reads (delete_fst (accep q)) s \<longleftrightarrow> x = [] \<and> s = q @ r"
  by (auto simp: reads_delete_accep prefix_def)

lemma reads_table_then:
  "(v, r) \<in> reads (concat_fst (graph_month m mc) (delete_fst (accep q))) s \<longleftrightarrow>
     (\<exists>k. (k, v) \<in> set m \<union> set mc \<and> s = k @ q @ r)"
  unfolding reads_concat_iff graph_month_def reads_union Un_iff reads_string_map_iff
    reads_delete_accep_iff
  by auto

lemma reads_month_head:
  \<open>reads (concat_fst (concat_fst (concat_fst (delete_fst (accep ''month:'')) delete_space)
      (delete_fst (accep ''"''))) H) (''month: "'' @ s) = reads H s\<close>
  by (simp add: reads_eval)

section \<open>The date verbalizer on a day and a month\<close>

lemma enero_cut:
  \<open>''enero" preserve_order: true }'' = k @ ''"'' @ r \<longleftrightarrow>
     k = ''enero'' \<and> r = '' preserve_order: true }''\<close>
  by (auto simp: Cons_eq_append_conv)

lemma month_enero:
  assumes "{v. (''enero'', v) \<in> set m \<union> set mc} = {''enero''}"
  shows \<open>reads (month (graph_month m mc)) ''month: "enero" preserve_order: true }'' =
    {(''enero'', '' preserve_order: true }'')}\<close>
proof -
  let ?R = \<open>''enero" preserve_order: true }''\<close>
  let ?D = \<open>delete_fst (accep ''"'')\<close>
  have "reads (month (graph_month m mc)) (''month: \"'' @ ?R) =
        reads (concat_fst (graph_month m mc) ?D) ?R"
    unfolding month_def by (subst reads_concat_assoc) (rule reads_month_head)
  moreover have "(v, r) \<in> reads (concat_fst (graph_month m mc) ?D) ?R \<longleftrightarrow>
      v = ''enero'' \<and> r = '' preserve_order: true }''" for v r
    unfolding reads_table_then enero_cut using assms by auto
  ultimately show ?thesis by auto
qed

text \<open>
  C4. The Spanish date verbalizer, applied to the token record
  \<open>date { day: "1" month: "enero" preserve_order: true }\<close>, has exactly one output, the string
  \<open>1 de enero\<close>. The month tables are parameters: the statement holds for all tables
  in which the key \<open>enero\<close> has the one value \<open>enero\<close>.
\<close>

theorem DateFst_day_month_enero:
  assumes "{v. (''enero'', v) \<in> set months \<union> set months_cased} = {''enero''}"
  shows \<open>outputs (DateFst months months_cased)
            ''date { day: "1" month: "enero" preserve_order: true }'' = {''1 de enero''}\<close>
proof -
  let ?res = \<open>concat_fst (concat_fst (concat_fst (concat_fst (concat_fst (concat_fst
                  (delete_fst (accep ''date''))
                  delete_space)
                  (delete_fst (accep ''{'')))
                  delete_space)
                  (final_graph (graph_month months months_cased)))
                  delete_space)
                  (delete_fst (accep ''}''))\<close>
  have \<open>reads ?res ''date { day: "1" month: "enero" preserve_order: true }'' =
      {(''1 de enero'', [])}\<close>
    by (simp add: reads_eval final_graph_def graph_dm_def day_def year_def
        optional_preserve_order_def insert_space_def month_enero[OF assms])
  then have \<open>outputs ?res ''date { day: "1" month: "enero" preserve_order: true }'' =
      {''1 de enero''}\<close>
    by (simp add: outputs_eq_reads)
  then show ?thesis
    by (simp add: DateFst_def outputs_optimize delete_tokens_def outputs_compose
        outputs_cdrewrite accepts_NEMO_SIGMA ascii_def NEMO_NON_BREAKING_SPACE_def)
qed

theorem DateFst_day_month_enero_witness:
  \<open>{v. (''enero'', v) \<in> set [(''enero'', ''enero''), (''febrero'', ''febrero'')] \<union>
        set [(''Enero'', ''Enero'')]} = {''enero''} \<and>
   outputs (DateFst [(''enero'', ''enero''), (''febrero'', ''febrero'')] [(''Enero'', ''Enero'')])
     ''date { day: "1" month: "enero" preserve_order: true }'' = {''1 de enero''}\<close>
  using DateFst_day_month_enero
    [of "[(''enero'', ''enero''), (''febrero'', ''febrero'')]" "[(''Enero'', ''Enero'')]"]
  by simp

section \<open>Capitalized input\<close>


end
